theory Spec2Isabelle
  imports Main "HOL-Library.Word"
begin

section \<open>Data model of include/linux/memremap.h\<close>

text \<open>
  \<^verbatim>\<open>unsigned long\<close> is a 64-bit word. Object and function pointers are addresses (natural
  numbers); a pointer that may be \<^verbatim>\<open>NULL\<close> is an option.
\<close>

type_synonym ulong = "64 word"
type_synonym fnptr = "nat option"

text \<open>\<^verbatim>\<open>struct vmem_altmap\<close> (lines 21-27).\<close>

record vmem_altmap =
  base_pfn :: ulong
  reserve :: ulong
  free :: ulong
  align :: ulong
  alloc :: ulong

text \<open>\<^verbatim>\<open>enum memory_type\<close> (lines 61-66).\<close>

datatype memory_type =
  MEMORY_DEVICE_HOST
| MEMORY_DEVICE_PRIVATE
| MEMORY_DEVICE_PUBLIC
| MEMORY_DEVICE_PCI_P2PDMA

text \<open>
  Modelled from the spec: \<^verbatim>\<open>struct resource\<close> is declared in linux/ioport.h, which is
  outside this header. The specification gives a region's physical range as a start
  address and a length.
\<close>

record resource =
  start :: nat
  nbytes :: nat

text \<open>\<^verbatim>\<open>struct dev_pagemap\<close> (lines 118-129).\<close>

record dev_pagemap =
  page_fault :: fnptr
  page_free :: fnptr
  altmap :: vmem_altmap
  altmap_valid :: bool
  res :: resource
  ref :: nat
  dev :: nat
  data :: nat
  type :: memory_type
  pci_p2pdma_bus_offset :: "64 word"

text \<open>
  Modelled from the spec: \<^verbatim>\<open>struct page\<close> is declared in linux/mm_types.h, which is
  outside this header. The model keeps what this header reads: whether the frame lies
  in the device zone, the back-reference \<^verbatim>\<open>page->pgmap\<close> to the owning region, and the
  ordinary reference count.
\<close>

record page =
  zone_device :: bool
  pgmap :: "dev_pagemap option"
  refcount :: int

text \<open>The preprocessor symbols that select between the variants of the header.\<close>

record config =
  CONFIG_ZONE_DEVICE :: bool
  CONFIG_PCI_P2PDMA :: bool

text \<open>
  What the platform fixes and the header leaves open: the frame size, the padding an
  allocation of a given count needs at the allocator's current position, and the number of
  bookkeeping frames that describe a physical range.
\<close>

record platform =
  PAGE_SHIFT :: nat
  alignment_padding :: "vmem_altmap \<Rightarrow> ulong \<Rightarrow> ulong"
  memmap_frames :: "resource \<Rightarrow> ulong"

datatype error =
  ENXIO
| Overlap
| MissingFaultHandler
| AllocatorExhausted
| OutOfReservedSpace
| FreeRejected
| InvalidHandle
| DoubleRelease
| NullDereference
| RefcountBug

text \<open>
  The error taxonomy of the specification (section 7): overlapping registration, a missing
  required fault handler and a compiled-out capability are configuration errors.
\<close>

fun is_configuration_error :: "error \<Rightarrow> bool" where
  "is_configuration_error ENXIO = True"
| "is_configuration_error Overlap = True"
| "is_configuration_error MissingFaultHandler = True"
| "is_configuration_error _ = False"

section \<open>Type predicates (lines 170-195)\<close>

text \<open>
  Modelled from the spec: \<^verbatim>\<open>is_zone_device_page\<close> is only declared here (line 139); its body
  is in linux/mm.h. It tells whether the page is device-backed.
\<close>

definition is_zone_device_page :: "page \<Rightarrow> bool" where
  "is_zone_device_page pg = zone_device pg"

text \<open>
  \<^verbatim>\<open>&&\<close> evaluates \<^verbatim>\<open>page->pgmap->type\<close> only for a device-backed page; following a
  \<^verbatim>\<open>NULL\<close> back-reference there is a fault.
\<close>

definition is_pci_p2pdma_page :: "config \<Rightarrow> page \<Rightarrow> error + bool" where
  "is_pci_p2pdma_page cfg pg =
     (if CONFIG_PCI_P2PDMA cfg then
        (if is_zone_device_page pg then
           (case pgmap pg of
              None \<Rightarrow> Inl NullDereference
            | Some pm \<Rightarrow> Inr (type pm = MEMORY_DEVICE_PCI_P2PDMA))
         else Inr False)
      else Inr False)"

text \<open>
  The next two exist only when \<^verbatim>\<open>CONFIG_DEVICE_PRIVATE\<close> or \<^verbatim>\<open>CONFIG_DEVICE_PUBLIC\<close> is
  set; the header has no other variant of them.
\<close>

definition is_device_private_page :: "page \<Rightarrow> error + bool" where
  "is_device_private_page pg =
     (if is_zone_device_page pg then
        (case pgmap pg of
           None \<Rightarrow> Inl NullDereference
         | Some pm \<Rightarrow> Inr (type pm = MEMORY_DEVICE_PRIVATE))
      else Inr False)"

definition is_device_public_page :: "page \<Rightarrow> error + bool" where
  "is_device_public_page pg =
     (if is_zone_device_page pg then
        (case pgmap pg of
           None \<Rightarrow> Inl NullDereference
         | Some pm \<Rightarrow> Inr (type pm = MEMORY_DEVICE_PUBLIC))
      else Inr False)"

section \<open>Metadata allocator\<close>

text \<open>
  Modelled from the spec: \<^verbatim>\<open>vmem_altmap_alloc\<close> lives in mm/sparse-vmemmap.c, which is
  outside this header. Specification 4.1: allocate first consumes the padding that
  the platform's alignment requires, then decrements the free frames; it fails if the request
  exceeds the free frames that remain after padding. A failed allocation changes nothing.
  The result is the offset of the allocation from \<open>base_pfn\<close>.
\<close>

definition vmem_altmap_alloc ::
  "platform \<Rightarrow> vmem_altmap \<Rightarrow> ulong \<Rightarrow> error + (ulong \<times> vmem_altmap)" where
  "vmem_altmap_alloc plat am nr_pfns =
     (let nr_align = alignment_padding plat am nr_pfns in
      if free am < nr_align then Inl OutOfReservedSpace
      else if free am - nr_align < nr_pfns then Inl OutOfReservedSpace
      else Inr (reserve am + align am + nr_align + alloc am,
                am\<lparr>free := free am - nr_align - nr_pfns,
                   align := align am + nr_align,
                   alloc := alloc am + nr_pfns\<rparr>))"

text \<open>
  Modelled from the spec: the body of \<^verbatim>\<open>vmem_altmap_free\<close> under \<^verbatim>\<open>CONFIG_ZONE_DEVICE\<close> is
  in kernel/memremap.c, outside this header, which only declares it (line 137).
  Specification 4.1: free reclaims frames only from the most recently allocated tail. The
  specification asks for an explicit choice on freeing too much: freeing more than is
  allocated is rejected and changes nothing.
\<close>

definition reclaim_tail :: "vmem_altmap \<Rightarrow> ulong \<Rightarrow> error + vmem_altmap" where
  "reclaim_tail am nr_pfns =
     (if alloc am < nr_pfns then Inl FreeRejected
      else Inr (am\<lparr>free := free am + nr_pfns, alloc := alloc am - nr_pfns\<rparr>))"

text \<open>
  \<^verbatim>\<open>vmem_altmap_free\<close>: with \<^verbatim>\<open>CONFIG_ZONE_DEVICE\<close> unset it is the empty function of lines
  164-167; with it set it is the function declared at line 137.
\<close>

definition vmem_altmap_free :: "config \<Rightarrow> vmem_altmap \<Rightarrow> ulong \<Rightarrow> error + vmem_altmap" where
  "vmem_altmap_free cfg am nr_pfns =
     (if CONFIG_ZONE_DEVICE cfg then reclaim_tail am nr_pfns else Inr am)"

definition accounted :: "vmem_altmap \<Rightarrow> nat" where
  "accounted am = unat (reserve am) + unat (free am) + unat (align am) + unat (alloc am)"

datatype altmap_op = Allocate ulong | Free ulong

text \<open>A failed operation leaves the reservation as it was.\<close>

fun altmap_step :: "config \<Rightarrow> platform \<Rightarrow> altmap_op \<Rightarrow> vmem_altmap \<Rightarrow> vmem_altmap" where
  "altmap_step cfg plat (Allocate n) am =
     (case vmem_altmap_alloc plat am n of Inl e \<Rightarrow> am | Inr (off, am') \<Rightarrow> am')"
| "altmap_step cfg plat (Free n) am =
     (case vmem_altmap_free cfg am n of Inl e \<Rightarrow> am | Inr am' \<Rightarrow> am')"

fun altmap_run :: "config \<Rightarrow> platform \<Rightarrow> altmap_op list \<Rightarrow> vmem_altmap \<Rightarrow> vmem_altmap" where
  "altmap_run cfg plat [] am = am"
| "altmap_run cfg plat (x # xs) am = altmap_run cfg plat xs (altmap_step cfg plat x am)"

text \<open>
  A platform for the examples: frames of 4096 bytes, an allocation of \<open>n\<close> frames aligned to
  a multiple of \<open>n\<close> frames, one bookkeeping frame for every 64 frames of the range.
\<close>

definition natural_padding :: "vmem_altmap \<Rightarrow> ulong \<Rightarrow> ulong" where
  "natural_padding am n =
     (if n = 0 then 0
      else (n - (base_pfn am + reserve am + align am + alloc am) mod n) mod n)"

definition sample_platform :: platform where
  "sample_platform =
     \<lparr>PAGE_SHIFT = 12, alignment_padding = natural_padding,
      memmap_frames = (\<lambda>r. of_nat (nbytes r div 4096 div 64))\<rparr>"

section \<open>Region registry\<close>

text \<open>
  Modelled from the spec: the registry's state is kept in kernel/memremap.c, outside this
  header. Specification 4.2 and 4.3: the address-ordered index of live regions, the
  single-entry cache of the last resolved region, the pin count behind every handle
  (\<^verbatim>\<open>pgmap->ref\<close>), and the next handle that the lifecycle controller will issue. The log
  records the unregistrations that teardown has invoked. \<open>warned\<close> is the once-flag of
  \<^verbatim>\<open>WARN_ON_ONCE\<close> (line 149).
\<close>

record registry =
  index :: "dev_pagemap list"
  last_resolved :: "dev_pagemap option"
  pins :: "nat \<Rightarrow> nat"
  next_handle :: nat
  unregistered :: "nat list"
  warned :: bool

definition empty_registry :: registry where
  "empty_registry =
     \<lparr>index = [], last_resolved = None, pins = (\<lambda>h. 0), next_handle = 1, unregistered = [],
      warned = False\<rparr>"

text \<open>
  Modelled from the spec: the macro \<^verbatim>\<open>PFN_PHYS\<close> is outside this header. A frame is a
  fixed-size unit of physical address space (glossary); the address of a frame is its number
  times the frame size.
\<close>

definition PFN_PHYS :: "platform \<Rightarrow> ulong \<Rightarrow> nat" where
  "PFN_PHYS plat pfn = unat pfn * 2 ^ PAGE_SHIFT plat"

text \<open>
  Modelled from the spec: a region's range contains a frame if the frame's address lies
  between the start of the range and its end.
\<close>

definition covers :: "platform \<Rightarrow> dev_pagemap \<Rightarrow> ulong \<Rightarrow> bool" where
  "covers plat pm pfn =
     (start (res pm) \<le> PFN_PHYS plat pfn \<and>
      PFN_PHYS plat pfn < start (res pm) + nbytes (res pm))"

text \<open>Modelled from the spec: two ranges overlap if they share an address.\<close>

definition ranges_overlap :: "resource \<Rightarrow> resource \<Rightarrow> bool" where
  "ranges_overlap a b = (start a < start b + nbytes b \<and> start b < start a + nbytes a)"

text \<open>
  Modelled from the spec: insertion into the address-ordered index (specification 4.2), before
  the first region that does not start below the new one.
\<close>

fun insert_ordered :: "dev_pagemap \<Rightarrow> dev_pagemap list \<Rightarrow> dev_pagemap list" where
  "insert_ordered pm [] = [pm]"
| "insert_ordered pm (r # rs) =
     (if start (res pm) \<le> start (res r) then pm # r # rs else r # insert_ordered pm rs)"

text \<open>
  Modelled from the spec: the search of the address-ordered index (specification 4.2). It
  stops at the first region that starts beyond the frame.
\<close>

fun find_dev_pagemap :: "platform \<Rightarrow> dev_pagemap list \<Rightarrow> ulong \<Rightarrow> dev_pagemap option" where
  "find_dev_pagemap plat [] pfn = None"
| "find_dev_pagemap plat (r # rs) pfn =
     (if PFN_PHYS plat pfn < start (res r) then None
      else if covers plat r pfn then Some r
      else find_dev_pagemap plat rs pfn)"

text \<open>
  Modelled from the spec: lookup (specification 4.2). A frame inside the last resolved region
  is answered from the cache; otherwise the index is searched and a hit becomes the cache
  entry.
\<close>

definition lookup :: "platform \<Rightarrow> registry \<Rightarrow> ulong \<Rightarrow> dev_pagemap option \<times> registry" where
  "lookup plat s pfn =
     (case last_resolved s of
        Some c \<Rightarrow>
          (if covers plat c pfn then (Some c, s)
           else (case find_dev_pagemap plat (index s) pfn of
                   None \<Rightarrow> (None, s)
                 | Some r \<Rightarrow> (Some r, s\<lparr>last_resolved := Some r\<rparr>)))
      | None \<Rightarrow>
          (case find_dev_pagemap plat (index s) pfn of
             None \<Rightarrow> (None, s)
           | Some r \<Rightarrow> (Some r, s\<lparr>last_resolved := Some r\<rparr>)))"

text \<open>
  Modelled from the spec: the per-frame bookkeeping of a new region comes from the metadata
  allocator if the region supplies a reservation, and from the frame table otherwise
  (specification 4.2).
\<close>

definition materialize :: "platform \<Rightarrow> dev_pagemap \<Rightarrow> error + dev_pagemap" where
  "materialize plat pm =
     (if altmap_valid pm then
        (case vmem_altmap_alloc plat (altmap pm) (memmap_frames plat (res pm)) of
           Inl e \<Rightarrow> Inl AllocatorExhausted
         | Inr (off, am) \<Rightarrow> Inr (pm\<lparr>altmap := am\<rparr>))
      else Inr pm)"

text \<open>
  Modelled from the spec: register (specification 4.2). It fails if the new range overlaps a
  live region, or if the memory type is inaccessible to the CPU and no fault handler is
  supplied, or if the reservation cannot hold the bookkeeping. A failed registration leaves
  the registry as it was. On success the lifecycle controller issues a pin handle that no
  region has had before, with one holder (specification 2); the region record keeps the
  handle in \<^verbatim>\<open>ref\<close> and enters the index in address order.
\<close>

definition register :: "platform \<Rightarrow> dev_pagemap \<Rightarrow> registry \<Rightarrow> (error + nat) \<times> registry" where
  "register plat pm s =
     (if \<exists>r \<in> set (index s). ranges_overlap (res pm) (res r) then (Inl Overlap, s)
      else if type pm = MEMORY_DEVICE_PRIVATE \<and> page_fault pm = None
        then (Inl MissingFaultHandler, s)
      else (case materialize plat pm of
              Inl e \<Rightarrow> (Inl e, s)
            | Inr pm' \<Rightarrow>
                (Inr (next_handle s),
                 s\<lparr>index := insert_ordered (pm'\<lparr>ref := next_handle s\<rparr>) (index s),
                   pins := (pins s)(next_handle s := 1),
                   next_handle := Suc (next_handle s)\<rparr>)))"

text \<open>
  Modelled from the spec: unregister (specification 4.2 and 4.3) removes the range from the
  index, drops it from the cache, and is recorded in the log.
\<close>

definition unregister :: "nat \<Rightarrow> registry \<Rightarrow> registry" where
  "unregister h s =
     s\<lparr>index := filter (\<lambda>r. ref r \<noteq> h) (index s),
       last_resolved :=
         (case last_resolved s of
            None \<Rightarrow> None
          | Some c \<Rightarrow> if ref c = h then None else Some c),
       unregistered := unregistered s @ [h]\<rparr>"

text \<open>
  \<^verbatim>\<open>devm_memremap_pages\<close>: with \<^verbatim>\<open>CONFIG_ZONE_DEVICE\<close> unset it is the stub of lines
  141-151, which warns once and returns \<^verbatim>\<open>ERR_PTR(-ENXIO)\<close>; with it set the function is only
  declared (line 132) and is the registration above.
\<close>

definition devm_memremap_pages ::
  "config \<Rightarrow> platform \<Rightarrow> nat \<Rightarrow> dev_pagemap \<Rightarrow> registry \<Rightarrow> (error + nat) \<times> registry" where
  "devm_memremap_pages cfg plat device pm s =
     (if CONFIG_ZONE_DEVICE cfg then register plat pm s
      else (Inl ENXIO, s\<lparr>warned := True\<rparr>))"

text \<open>
  \<^verbatim>\<open>get_dev_pagemap\<close>: with \<^verbatim>\<open>CONFIG_ZONE_DEVICE\<close> unset it is the stub of lines 153-157,
  which returns \<^verbatim>\<open>NULL\<close>; with it set the function is only declared (lines 133-134) and is the
  lookup above, where the registry keeps the cache entry.
\<close>

definition get_dev_pagemap ::
  "config \<Rightarrow> platform \<Rightarrow> registry \<Rightarrow> ulong \<Rightarrow> dev_pagemap option
     \<Rightarrow> dev_pagemap option \<times> registry" where
  "get_dev_pagemap cfg plat s pfn hint =
     (if CONFIG_ZONE_DEVICE cfg then lookup plat s pfn else (None, s))"

section \<open>Lifecycle controller\<close>

text \<open>
  Modelled from the spec: \<^verbatim>\<open>percpu_ref_get\<close> is declared in linux/percpu-refcount.h, outside
  this header. Specification 4.3: acquire increments the shared count. Teardown invalidates
  the handle, so a handle whose count is zero cannot be acquired.
\<close>

definition percpu_ref_get :: "nat \<Rightarrow> registry \<Rightarrow> error + registry" where
  "percpu_ref_get h s =
     (if pins s h = 0 then Inl InvalidHandle
      else Inr (s\<lparr>pins := (pins s)(h := pins s h + 1)\<rparr>))"

text \<open>
  Modelled from the spec: \<^verbatim>\<open>percpu_ref_put\<close> is declared in linux/percpu-refcount.h, outside
  this header. Specification 4.3: release decrements the shared count; when the count reaches
  zero teardown unregisters the region; releasing past zero is fatal.
\<close>

definition percpu_ref_put :: "nat \<Rightarrow> registry \<Rightarrow> error + registry" where
  "percpu_ref_put h s =
     (if pins s h = 0 then Inl DoubleRelease
      else (let s' = s\<lparr>pins := (pins s)(h := pins s h - 1)\<rparr>
            in if pins s' h = 0 then Inr (unregister h s') else Inr s'))"

text \<open>\<^verbatim>\<open>put_dev_pagemap\<close> (lines 197-201).\<close>

definition put_dev_pagemap :: "dev_pagemap option \<Rightarrow> registry \<Rightarrow> error + registry" where
  "put_dev_pagemap pm s =
     (case pm of
        None \<Rightarrow> Inr s
      | Some p \<Rightarrow> percpu_ref_put (ref p) s)"

text \<open>
  An interleaving of the atomic operations of concurrent holders is a list of events; a
  run stops at the first fatal error.
\<close>

datatype event = Acquire nat | Release "dev_pagemap option" | Lookup ulong

fun step :: "platform \<Rightarrow> event \<Rightarrow> registry \<Rightarrow> error + registry" where
  "step plat (Acquire h) s = percpu_ref_get h s"
| "step plat (Release pm) s = put_dev_pagemap pm s"
| "step plat (Lookup pfn) s = Inr (snd (lookup plat s pfn))"

fun run :: "platform \<Rightarrow> event list \<Rightarrow> registry \<Rightarrow> error + registry" where
  "run plat [] s = Inr s"
| "run plat (e # es) s =
     (case step plat e s of Inl err \<Rightarrow> Inl err | Inr s' \<Rightarrow> run plat es s')"

section \<open>Frame release\<close>










section \<open>Consistent and reachable registries\<close>

text \<open>
  The index is address-ordered and its ranges are pairwise disjoint.
\<close>

definition ordered_disjoint :: "dev_pagemap list \<Rightarrow> bool" where
  "ordered_disjoint rs =
     sorted_wrt (\<lambda>a b. start (res a) \<le> start (res b) \<and> \<not> ranges_overlap (res a) (res b)) rs"

text \<open>The cache entry, if there is one, is a live region.\<close>

definition cache_valid :: "registry \<Rightarrow> bool" where
  "cache_valid s = (case last_resolved s of None \<Rightarrow> True | Some c \<Rightarrow> c \<in> set (index s))"

text \<open>A consistent registry; every live region is pinned.\<close>

definition registry_ok :: "registry \<Rightarrow> bool" where
  "registry_ok s =
     (ordered_disjoint (index s) \<and> cache_valid s \<and> (\<forall>r \<in> set (index s). 0 < pins s (ref r)))"

text \<open>
  The operations on a registry: a registration request of a device, or an event of a pin
  holder. A rejected registration is not fatal; the registry goes on unchanged.
\<close>

datatype op = Register nat dev_pagemap | Pin event

fun apply_op :: "config \<Rightarrow> platform \<Rightarrow> op \<Rightarrow> registry \<Rightarrow> error + registry" where
  "apply_op cfg plat (Register device pm) s = Inr (snd (devm_memremap_pages cfg plat device pm s))"
| "apply_op cfg plat (Pin e) s = step plat e s"

fun exec :: "config \<Rightarrow> platform \<Rightarrow> op list \<Rightarrow> registry \<Rightarrow> error + registry" where
  "exec cfg plat [] s = Inr s"
| "exec cfg plat (x # xs) s =
     (case apply_op cfg plat x s of Inl err \<Rightarrow> Inl err | Inr s' \<Rightarrow> exec cfg plat xs s')"

text \<open>
  The invariant of teardown for a region \<open>r\<close> that was live when the log held \<open>n\<close>
  unregistrations of its handle: while the handle is pinned the region is live and the log is
  as it was; once the count is zero the log holds one more and no region has the handle.
\<close>

definition teardown_inv :: "dev_pagemap \<Rightarrow> nat \<Rightarrow> registry \<Rightarrow> bool" where
  "teardown_inv r n s =
     (if pins s (ref r) = 0
      then count_list (unregistered s) (ref r) = Suc n \<and>
           \<not> (\<exists>x \<in> set (index s). ref x = ref r)
      else count_list (unregistered s) (ref r) = n \<and> r \<in> set (index s))"

text \<open>
  The net number of pins that a trace takes on a handle, counted from the trace alone:
  acquisitions of the handle minus releases of a region that carries it.
\<close>

fun net :: "nat \<Rightarrow> event list \<Rightarrow> int" where
  "net h [] = 0"
| "net h (Acquire h' # es) = (if h' = h then 1 else 0) + net h es"
| "net h (Release None # es) = net h es"
| "net h (Release (Some p) # es) = (if ref p = h then - 1 else 0) + net h es"
| "net h (Lookup pfn # es) = net h es"

text \<open>
  Handles are issued once: every live region's handle has been issued, no two live regions
  share a handle, and a handle not yet issued has no pins.
\<close>

definition handles_fresh :: "registry \<Rightarrow> bool" where
  "handles_fresh s =
     ((\<forall>r \<in> set (index s). ref r < next_handle s) \<and>
      distinct (map ref (index s)) \<and>
      (\<forall>h. next_handle s \<le> h \<longrightarrow> pins s h = 0))"

section \<open>Example inputs\<close>

definition config_none :: config where
  "config_none = \<lparr>CONFIG_ZONE_DEVICE = False, CONFIG_PCI_P2PDMA = False\<rparr>"

definition config_all :: config where
  "config_all = \<lparr>CONFIG_ZONE_DEVICE = True, CONFIG_PCI_P2PDMA = True\<rparr>"

definition pmem_altmap :: vmem_altmap where
  "pmem_altmap = \<lparr>base_pfn = 256, reserve = 2, free = 16, align = 0, alloc = 0\<rparr>"

definition pmem_region :: dev_pagemap where
  "pmem_region =
     \<lparr>page_fault = None, page_free = None, altmap = pmem_altmap, altmap_valid = True,
      res = \<lparr>start = 1048576, nbytes = 1048576\<rparr>, ref = 1, dev = 0, data = 0,
      type = MEMORY_DEVICE_HOST, pci_p2pdma_bus_offset = 0\<rparr>"

definition private_region :: dev_pagemap where
  "private_region =
     \<lparr>page_fault = Some 7, page_free = Some 8, altmap = pmem_altmap, altmap_valid = False,
      res = \<lparr>start = 4194304, nbytes = 2097152\<rparr>, ref = 2, dev = 0, data = 9,
      type = MEMORY_DEVICE_PRIVATE, pci_p2pdma_bus_offset = 0\<rparr>"

definition p2p_region :: dev_pagemap where
  "p2p_region =
     \<lparr>page_fault = None, page_free = None, altmap = pmem_altmap, altmap_valid = False,
      res = \<lparr>start = 8388608, nbytes = 4096\<rparr>, ref = 3, dev = 0, data = 0,
      type = MEMORY_DEVICE_PCI_P2PDMA, pci_p2pdma_bus_offset = 0\<rparr>"

definition one_region :: registry where
  "one_region = snd (register sample_platform pmem_region empty_registry)"

definition two_regions :: registry where
  "two_regions = snd (register sample_platform private_region one_region)"

definition pmem_registered :: dev_pagemap where
  "pmem_registered =
     pmem_region\<lparr>altmap := \<lparr>base_pfn = 256, reserve = 2, free = 10, align = 2, alloc = 4\<rparr>\<rparr>"

definition torn_down :: registry where
  "torn_down =
     \<lparr>index = [pmem_registered], last_resolved = None, pins = (\<lambda>h. 0)(1 := 1, 2 := 0),
      next_handle = 3,
      unregistered = [2], warned = False\<rparr>"


section \<open>Example states\<close>

lemma one_region_eq:
  "one_region =
     \<lparr>index = [pmem_region\<lparr>altmap := \<lparr>base_pfn = 256, reserve = 2, free = 10, align = 2, alloc = 4\<rparr>\<rparr>],
      last_resolved = None, pins = (\<lambda>h. 0)(1 := 1), next_handle = 2, unregistered = [],
      warned = False\<rparr>"
  by (simp add: one_region_def register_def empty_registry_def materialize_def
      vmem_altmap_alloc_def sample_platform_def natural_padding_def pmem_altmap_def pmem_region_def)

lemma two_regions_eq:
  "two_regions =
     \<lparr>index = [pmem_region\<lparr>altmap := \<lparr>base_pfn = 256, reserve = 2, free = 10, align = 2, alloc = 4\<rparr>\<rparr>,
               private_region],
      last_resolved = None, pins = (\<lambda>h. 0)(1 := 1, 2 := 1), next_handle = 3,
      unregistered = [], warned = False\<rparr>"
  by (simp add: two_regions_def one_region_eq register_def materialize_def ranges_overlap_def
      private_region_def pmem_region_def)

section \<open>The compiled-out variants\<close>

text \<open>
  Claim C3. With \<^verbatim>\<open>CONFIG_ZONE_DEVICE\<close> unset, registration fails with \<^verbatim>\<open>ENXIO\<close> for
  every device, every region and every prior state, leaving the index as it was, and lookup
  returns \<^verbatim>\<open>NULL\<close> for every frame, every hint and every prior state.
\<close>

theorem zone_device_disabled:
  "\<not> CONFIG_ZONE_DEVICE cfg \<Longrightarrow>
     fst (devm_memremap_pages cfg plat device pm s) = Inl ENXIO \<and>
     index (snd (devm_memremap_pages cfg plat device pm s)) = index s \<and>
     fst (get_dev_pagemap cfg plat s pfn hint) = None"
  by (simp add: devm_memremap_pages_def get_dev_pagemap_def)

theorem zone_device_disabled_witness:
  "\<not> CONFIG_ZONE_DEVICE config_none \<and>
   fst (devm_memremap_pages config_none sample_platform 0 private_region two_regions) = Inl ENXIO \<and>
   index (snd (devm_memremap_pages config_none sample_platform 0 private_region two_regions))
     = index two_regions \<and>
   fst (get_dev_pagemap config_none sample_platform two_regions 300 None) = None"
  using zone_device_disabled [of config_none sample_platform 0 private_region two_regions 300 None]
  by (simp add: config_none_def)

text \<open>
  Claim C10. With \<^verbatim>\<open>CONFIG_PCI_P2PDMA\<close> unset, \<^verbatim>\<open>is_pci_p2pdma_page\<close> is false for every
  page, also for a device-backed page of a region of type \<^verbatim>\<open>MEMORY_DEVICE_PCI_P2PDMA\<close>.
\<close>

theorem p2pdma_disabled:
  "\<not> CONFIG_PCI_P2PDMA cfg \<Longrightarrow> is_pci_p2pdma_page cfg pg = Inr False"
  by (simp add: is_pci_p2pdma_page_def)

theorem p2pdma_disabled_witness:
  "\<not> CONFIG_PCI_P2PDMA config_none \<and>
   is_zone_device_page \<lparr>zone_device = True, pgmap = Some p2p_region, refcount = 1\<rparr> \<and>
   type p2p_region = MEMORY_DEVICE_PCI_P2PDMA \<and>
   is_pci_p2pdma_page config_none
     \<lparr>zone_device = True, pgmap = Some p2p_region, refcount = 1\<rparr> = Inr False"
  using p2pdma_disabled [of config_none
      "\<lparr>zone_device = True, pgmap = Some p2p_region, refcount = 1\<rparr>"]
  by (simp add: config_none_def is_zone_device_page_def p2p_region_def)

section \<open>Type predicates\<close>

text \<open>
  Claim C7. Each predicate of lines 171-175 and 184-194 is true exactly for a device-backed
  page whose region has the corresponding memory type (the peer-to-peer predicate in its
  \<^verbatim>\<open>CONFIG_PCI_P2PDMA\<close> variant), and its result is a function of whether the page is
  device-backed and of the region's memory type alone.
\<close>

theorem type_predicates:
  "(is_device_private_page pg = Inr True \<longleftrightarrow>
      is_zone_device_page pg \<and> (\<exists>pm. pgmap pg = Some pm \<and> type pm = MEMORY_DEVICE_PRIVATE)) \<and>
   (is_device_public_page pg = Inr True \<longleftrightarrow>
      is_zone_device_page pg \<and> (\<exists>pm. pgmap pg = Some pm \<and> type pm = MEMORY_DEVICE_PUBLIC)) \<and>
   (CONFIG_PCI_P2PDMA cfg \<longrightarrow>
      (is_pci_p2pdma_page cfg pg = Inr True \<longleftrightarrow>
         is_zone_device_page pg \<and>
         (\<exists>pm. pgmap pg = Some pm \<and> type pm = MEMORY_DEVICE_PCI_P2PDMA))) \<and>
   (is_zone_device_page pg = is_zone_device_page pg' \<and>
    map_option type (pgmap pg) = map_option type (pgmap pg') \<longrightarrow>
      is_device_private_page pg = is_device_private_page pg' \<and>
      is_device_public_page pg = is_device_public_page pg' \<and>
      is_pci_p2pdma_page cfg pg = is_pci_p2pdma_page cfg pg')"
  by (auto simp: is_device_private_page_def is_device_public_page_def is_pci_p2pdma_page_def
      split: option.splits)

theorem type_predicates_witness:
  "CONFIG_PCI_P2PDMA config_all \<and>
   is_zone_device_page \<lparr>zone_device = True, pgmap = Some p2p_region, refcount = 1\<rparr> \<and>
   is_pci_p2pdma_page config_all \<lparr>zone_device = True, pgmap = Some p2p_region, refcount = 1\<rparr>
     = Inr True \<and>
   is_device_private_page \<lparr>zone_device = True, pgmap = Some p2p_region, refcount = 1\<rparr>
     \<noteq> Inr True \<and>
   is_pci_p2pdma_page config_all \<lparr>zone_device = True, pgmap = Some p2p_region, refcount = 1\<rparr>
     = is_pci_p2pdma_page config_all \<lparr>zone_device = True, pgmap = Some p2p_region, refcount = 5\<rparr>"
proof -
  let ?pg = "\<lparr>zone_device = True, pgmap = Some p2p_region, refcount = 1\<rparr>"
  let ?pg' = "\<lparr>zone_device = True, pgmap = Some p2p_region, refcount = 5\<rparr>"
  have c: "CONFIG_PCI_P2PDMA config_all"
    by (simp add: config_all_def)
  have z: "is_zone_device_page ?pg"
    by (simp add: is_zone_device_page_def)
  have m: "\<exists>pm. pgmap ?pg = Some pm \<and> type pm = MEMORY_DEVICE_PCI_P2PDMA"
    by (simp add: p2p_region_def)
  have n: "\<not> (\<exists>pm. pgmap ?pg = Some pm \<and> type pm = MEMORY_DEVICE_PRIVATE)"
    by (simp add: p2p_region_def)
  have e: "is_zone_device_page ?pg = is_zone_device_page ?pg' \<and>
      map_option type (pgmap ?pg) = map_option type (pgmap ?pg')"
    by (simp add: is_zone_device_page_def)
  show ?thesis
    using type_predicates [of ?pg config_all ?pg'] c z m n e by blast
qed

section \<open>Releasing a pin\<close>

text \<open>
  Claim C9. \<^verbatim>\<open>put_dev_pagemap\<close> on a null handle returns with the state unchanged; on a
  handle that is not null it is \<^verbatim>\<open>percpu_ref_put\<close> on the region's pin, which takes one
  from a positive count; so a call that changes a pin count had a handle that is not null.
\<close>

theorem put_dev_pagemap_null:
  "put_dev_pagemap None s = Inr s \<and>
   put_dev_pagemap (Some p) s = percpu_ref_put (ref p) s \<and>
   (put_dev_pagemap pm s = Inr s' \<and> pins s' \<noteq> pins s \<longrightarrow> pm \<noteq> None) \<and>
   (0 < pins s (ref p) \<longrightarrow>
      (\<exists>s'. put_dev_pagemap (Some p) s = Inr s' \<and> pins s' (ref p) = pins s (ref p) - 1))"
  by (auto simp: put_dev_pagemap_def percpu_ref_put_def unregister_def Let_def)

theorem put_dev_pagemap_null_witness:
  "0 < pins one_region (ref pmem_region) \<and>
   put_dev_pagemap None one_region = Inr one_region \<and>
   (\<exists>s'. put_dev_pagemap (Some pmem_region) one_region = Inr s' \<and>
         pins s' \<noteq> pins one_region \<and> pins s' (ref pmem_region) = 0)"
proof -
  have h: "pins one_region (ref pmem_region) = 1"
    by (simp add: one_region_eq pmem_region_def)
  then have "0 < pins one_region (ref pmem_region)"
    by simp
  with put_dev_pagemap_null [of one_region pmem_region "Some pmem_region"]
  obtain s' where s': "put_dev_pagemap (Some pmem_region) one_region = Inr s'"
      "pins s' (ref pmem_region) = pins one_region (ref pmem_region) - 1"
    by blast
  have neq: "pins s' \<noteq> pins one_region"
    using s'(2) h by auto
  have zero: "pins s' (ref pmem_region) = 0"
    using s'(2) h by simp
  have pos: "0 < pins one_region (ref pmem_region)"
    using h by simp
  have null: "put_dev_pagemap None one_region = Inr one_region"
    using put_dev_pagemap_null [of one_region pmem_region "Some pmem_region"] by blast
  show ?thesis
    using pos null s'(1) neq zero by blast
qed

section \<open>Metadata allocator: accounting\<close>

lemma unat_add_small:
  fixes x y :: ulong
  assumes "unat x + unat y < 2 ^ 64"
  shows "unat (x + y) = unat x + unat y"
  using assms unat_add_lem [of x y] by simp

lemma alloc_success:
  assumes "vmem_altmap_alloc plat am n = Inr (off, am')"
  shows "alignment_padding plat am n \<le> free am"
    and "n \<le> free am - alignment_padding plat am n"
    and "am' = am\<lparr>free := free am - alignment_padding plat am n - n,
                   align := align am + alignment_padding plat am n,
                   alloc := alloc am + n\<rparr>"
  using assms by (auto simp: vmem_altmap_alloc_def Let_def not_less split: if_splits)

lemma alloc_free_exact:
  assumes "vmem_altmap_alloc plat am n = Inr (off, am')"
  shows "unat (free am') + unat (alignment_padding plat am n) + unat n = unat (free am)"
proof -
  let ?p = "alignment_padding plat am n"
  have p: "?p \<le> free am" and n: "n \<le> free am - ?p"
    using alloc_success [OF assms] by simp_all
  have f: "free am' = free am - ?p - n"
    using alloc_success(3) [OF assms] by simp
  have "unat (free am - ?p) = unat (free am) - unat ?p"
    using p by (rule unat_sub)
  moreover have "unat (free am - ?p - n) = unat (free am - ?p) - unat n"
    using n by (rule unat_sub)
  moreover have "unat ?p \<le> unat (free am)"
    using p by (simp add: word_le_nat_alt)
  moreover have "unat n \<le> unat (free am - ?p)"
    using n by (simp add: word_le_nat_alt)
  ultimately show ?thesis
    using f by simp
qed

lemma alloc_accounted:
  assumes ok: "vmem_altmap_alloc plat am n = Inr (off, am')"
    and small: "accounted am < 2 ^ 64"
  shows "accounted am' = accounted am"
    and "unat (align am') = unat (align am) + unat (alignment_padding plat am n)"
    and "unat (alloc am') = unat (alloc am) + unat n"
proof -
  let ?p = "alignment_padding plat am n"
  have ex: "unat (free am') + unat ?p + unat n = unat (free am)"
    using ok by (rule alloc_free_exact)
  have am': "align am' = align am + ?p" "alloc am' = alloc am + n" "reserve am' = reserve am"
    using alloc_success(3) [OF ok] by simp_all
  have "unat (align am) + unat ?p < 2 ^ 64"
    using small ex by (simp add: accounted_def)
  then show al: "unat (align am') = unat (align am) + unat ?p"
    using am'(1) by (simp add: unat_add_small)
  have "unat (alloc am) + unat n < 2 ^ 64"
    using small ex by (simp add: accounted_def)
  then show ac: "unat (alloc am') = unat (alloc am) + unat n"
    using am'(2) by (simp add: unat_add_small)
  show "accounted am' = accounted am"
    using al ac ex am'(3) by (simp add: accounted_def)
qed

lemma free_success:
  assumes "vmem_altmap_free cfg am n = Inr am'" and "CONFIG_ZONE_DEVICE cfg"
  shows "n \<le> alloc am"
    and "am' = am\<lparr>free := free am + n, alloc := alloc am - n\<rparr>"
  using assms by (auto simp: vmem_altmap_free_def reclaim_tail_def not_less split: if_splits)

lemma free_accounted:
  assumes ok: "vmem_altmap_free cfg am n = Inr am'"
    and small: "accounted am < 2 ^ 64"
  shows "accounted am' = accounted am"
proof (cases "CONFIG_ZONE_DEVICE cfg")
  case False
  then show ?thesis using ok by (simp add: vmem_altmap_free_def reclaim_tail_def)
next
  case True
  have n: "n \<le> alloc am" and am': "am' = am\<lparr>free := free am + n, alloc := alloc am - n\<rparr>"
    using free_success [OF ok True] by simp_all
  have le: "unat n \<le> unat (alloc am)"
    using n by (simp add: word_le_nat_alt)
  have "unat (alloc am - n) = unat (alloc am) - unat n"
    using n by (rule unat_sub)
  moreover have "unat (free am) + unat n < 2 ^ 64"
    using small le by (simp add: accounted_def)
  then have "unat (free am + n) = unat (free am) + unat n"
    by (rule unat_add_small)
  ultimately show ?thesis
    using le am' by (simp add: accounted_def)
qed

lemma altmap_step_accounted:
  assumes "accounted am < 2 ^ 64"
  shows "accounted (altmap_step cfg plat x am) = accounted am"
proof (cases x)
  case (Allocate n)
  then show ?thesis
    using assms alloc_accounted(1) [of plat am n]
    by (auto split: sum.splits)
next
  case (Free n)
  then show ?thesis
    using assms free_accounted [of cfg am n]
    by (auto split: sum.splits)
qed

lemma altmap_run_accounted:
  "accounted am < 2 ^ 64 \<Longrightarrow> accounted (altmap_run cfg plat xs am) = accounted am"
  by (induction xs arbitrary: am) (simp_all add: altmap_step_accounted)

text \<open>
  Claim C6. For a reservation inside a backing range of \<open>nr_total\<close> frames (frame numbers
  are 64-bit), after any sequence of allocations and frees the reserved, free, padding and
  allocated frames together do not exceed \<open>nr_total\<close>; and the free frames never go below
  zero: an allocation that succeeds takes its padding and its count out of the free frames
  without wrapping.
\<close>

theorem altmap_accounting_bounded:
  assumes "accounted am \<le> nr_total" and "nr_total < 2 ^ 64"
  shows "accounted (altmap_run cfg plat xs am) \<le> nr_total \<and>
         (\<forall>n off am'.
            vmem_altmap_alloc plat (altmap_run cfg plat xs am) n = Inr (off, am') \<longrightarrow>
              unat (free am') + unat (alignment_padding plat (altmap_run cfg plat xs am) n)
                + unat n = unat (free (altmap_run cfg plat xs am)))"
proof -
  have "accounted am < 2 ^ 64"
    using assms by simp
  then have "accounted (altmap_run cfg plat xs am) = accounted am"
    by (rule altmap_run_accounted)
  then show ?thesis
    using assms(1) alloc_free_exact by auto
qed

theorem altmap_accounting_bounded_witness:
  "accounted pmem_altmap \<le> 256 \<and> (256::nat) < 2 ^ 64 \<and>
   altmap_run config_all sample_platform [Allocate 4, Free 4, Allocate 8, Free 100] pmem_altmap =
     \<lparr>base_pfn = 256, reserve = 2, free = 2, align = 6, alloc = 8\<rparr> \<and>
   accounted (altmap_run config_all sample_platform [Allocate 4, Free 4, Allocate 8, Free 100]
     pmem_altmap) \<le> 256"
proof -
  have a: "accounted pmem_altmap \<le> 256"
    by (simp add: accounted_def pmem_altmap_def)
  have b: "(256::nat) < 2 ^ 64"
    by simp
  have r: "altmap_run config_all sample_platform [Allocate 4, Free 4, Allocate 8, Free 100]
      pmem_altmap = \<lparr>base_pfn = 256, reserve = 2, free = 2, align = 6, alloc = 8\<rparr>"
    by (simp add: vmem_altmap_free_def reclaim_tail_def config_all_def vmem_altmap_alloc_def
        sample_platform_def natural_padding_def pmem_altmap_def)
  show ?thesis
    using altmap_accounting_bounded [OF a b, of config_all sample_platform
        "[Allocate 4, Free 4, Allocate 8, Free 100]"] a b r
    by simp
qed

section \<open>Region registry: lookup\<close>

lemma ranges_overlap_sym: "ranges_overlap a b = ranges_overlap b a"
  by (auto simp: ranges_overlap_def)

lemma covers_overlap:
  "covers plat a pfn \<Longrightarrow> covers plat b pfn \<Longrightarrow> ranges_overlap (res a) (res b)"
  by (auto simp: covers_def ranges_overlap_def)

lemma set_insert_ordered: "set (insert_ordered pm rs) = insert pm (set rs)"
  by (induction rs) auto

lemma ordered_disjoint_insert:
  assumes "ordered_disjoint rs" and "\<forall>r \<in> set rs. \<not> ranges_overlap (res pm) (res r)"
  shows "ordered_disjoint (insert_ordered pm rs)"
  using assms
proof (induction rs)
  case Nil
  then show ?case by (simp add: ordered_disjoint_def)
next
  case (Cons r rs)
  show ?case
  proof (cases "start (res pm) \<le> start (res r)")
    case True
    then show ?thesis
      using Cons.prems by (fastforce simp: ordered_disjoint_def)
  next
    case False
    have "ordered_disjoint (insert_ordered pm rs)"
      using Cons by (simp add: ordered_disjoint_def)
    then show ?thesis
      using False Cons.prems ranges_overlap_sym [of "res r" "res pm"]
      by (auto simp: ordered_disjoint_def set_insert_ordered)
  qed
qed

lemma ordered_disjoint_filter: "ordered_disjoint rs \<Longrightarrow> ordered_disjoint (filter P rs)"
  by (simp add: ordered_disjoint_def sorted_wrt_filter)

lemma ordered_disjoint_unique:
  assumes "ordered_disjoint rs" and "a \<in> set rs" and "b \<in> set rs"
    and "covers plat a pfn" and "covers plat b pfn"
  shows "a = b"
  using assms(1-3)
proof (induction rs)
  case Nil
  then show ?case by simp
next
  case (Cons r rs)
  have no: "\<forall>x \<in> set rs. \<not> ranges_overlap (res r) (res x)"
    using Cons.prems(1) by (simp add: ordered_disjoint_def)
  have tl: "ordered_disjoint rs"
    using Cons.prems(1) by (simp add: ordered_disjoint_def)
  consider "a = r" "b = r" | "a = r" "b \<in> set rs" | "a \<in> set rs" "b = r"
    | "a \<in> set rs" "b \<in> set rs"
    using Cons.prems(2,3) by auto
  then show ?case
  proof cases
    case 1
    then show ?thesis by simp
  next
    case 2
    then show ?thesis
      using no covers_overlap [OF assms(4) assms(5)] by blast
  next
    case 3
    then show ?thesis
      using no covers_overlap [OF assms(5) assms(4)] by blast
  next
    case 4
    then show ?thesis using Cons.IH tl by simp
  qed
qed

lemma find_dev_pagemap_iff:
  assumes "ordered_disjoint rs"
  shows "find_dev_pagemap plat rs pfn = Some r \<longleftrightarrow> r \<in> set rs \<and> covers plat r pfn"
  using assms
proof (induction rs)
  case Nil
  then show ?case by simp
next
  case (Cons r0 rs)
  have later: "\<forall>x \<in> set rs. start (res r0) \<le> start (res x)"
    using Cons.prems by (simp add: ordered_disjoint_def)
  have tl: "ordered_disjoint rs"
    using Cons.prems by (simp add: ordered_disjoint_def)
  show ?case
  proof (cases "PFN_PHYS plat pfn < start (res r0)")
    case True
    then have "\<forall>x \<in> set (r0 # rs). \<not> covers plat x pfn"
      using later by (fastforce simp: covers_def)
    then show ?thesis
      using True by auto
  next
    case False
    show ?thesis
    proof (cases "covers plat r0 pfn")
      case True
      have "r \<in> set (r0 # rs) \<and> covers plat r pfn \<longleftrightarrow> r = r0"
        using ordered_disjoint_unique [OF Cons.prems _ _ _ True, of r] True by auto
      then show ?thesis
        using True False by auto
    next
      case nc: False
      then show ?thesis
        using False Cons.IH [OF tl] by auto
    qed
  qed
qed

lemma find_dev_pagemap_None:
  assumes "ordered_disjoint rs"
  shows "find_dev_pagemap plat rs pfn = None \<longleftrightarrow> \<not> (\<exists>r \<in> set rs. covers plat r pfn)"
proof -
  have "find_dev_pagemap plat rs pfn = None \<longleftrightarrow> (\<forall>r. find_dev_pagemap plat rs pfn \<noteq> Some r)"
    by auto
  then show ?thesis
    using find_dev_pagemap_iff [OF assms] by auto
qed

lemma lookup_iff:
  assumes "ordered_disjoint (index s)" and "cache_valid s"
  shows "fst (lookup plat s pfn) = Some r \<longleftrightarrow> r \<in> set (index s) \<and> covers plat r pfn"
proof (cases "\<exists>c. last_resolved s = Some c \<and> covers plat c pfn")
  case True
  then obtain c where c: "last_resolved s = Some c" "covers plat c pfn"
    by blast
  then have cin: "c \<in> set (index s)"
    using assms(2) by (simp add: cache_valid_def)
  have "fst (lookup plat s pfn) = Some c"
    using c by (simp add: lookup_def)
  moreover have "r \<in> set (index s) \<and> covers plat r pfn \<longleftrightarrow> r = c"
    using ordered_disjoint_unique [OF assms(1) _ cin _ c(2), of r] cin c(2) by auto
  ultimately show ?thesis by auto
next
  case False
  then have "fst (lookup plat s pfn) = find_dev_pagemap plat (index s) pfn"
    by (auto simp: lookup_def split: option.splits)
  then show ?thesis
    using find_dev_pagemap_iff [OF assms(1)] by simp
qed

lemma lookup_None:
  assumes "ordered_disjoint (index s)" and "cache_valid s"
  shows "fst (lookup plat s pfn) = None \<longleftrightarrow> \<not> (\<exists>r \<in> set (index s). covers plat r pfn)"
proof -
  have "fst (lookup plat s pfn) = None \<longleftrightarrow> (\<forall>r. fst (lookup plat s pfn) \<noteq> Some r)"
    by auto
  then show ?thesis
    using lookup_iff [OF assms] by auto
qed

lemma lookup_state:
  "index (snd (lookup plat s pfn)) = index s \<and> pins (snd (lookup plat s pfn)) = pins s \<and>
   unregistered (snd (lookup plat s pfn)) = unregistered s \<and>
   next_handle (snd (lookup plat s pfn)) = next_handle s"
  by (simp add: lookup_def split: option.splits)

lemma find_dev_pagemap_mem: "find_dev_pagemap plat rs pfn = Some r \<Longrightarrow> r \<in> set rs"
  by (induction rs) (auto split: if_splits)

lemma lookup_cache_valid: "cache_valid s \<Longrightarrow> cache_valid (snd (lookup plat s pfn))"
  by (auto simp: lookup_def cache_valid_def split: option.splits dest: find_dev_pagemap_mem)

lemma lookup_ok: "registry_ok s \<Longrightarrow> registry_ok (snd (lookup plat s pfn))"
  using lookup_state [of plat s pfn] lookup_cache_valid [of s plat pfn]
  by (simp add: registry_ok_def)

lemma register_cases:
  assumes "register plat pm s = (res', s')"
  shows "(\<exists>e. res' = Inl e \<and> s' = s) \<or>
         (\<exists>pm'. materialize plat pm = Inr pm' \<and> res' = Inr (next_handle s) \<and>
            (\<forall>r \<in> set (index s). \<not> ranges_overlap (res pm) (res r)) \<and>
            s' = s\<lparr>index := insert_ordered (pm'\<lparr>ref := next_handle s\<rparr>) (index s),
                   pins := (pins s)(next_handle s := 1),
                   next_handle := Suc (next_handle s)\<rparr>)"
  using assms by (auto simp: register_def split: if_splits sum.splits)

lemma materialize_res: "materialize plat pm = Inr pm' \<Longrightarrow> res pm' = res pm \<and> ref pm' = ref pm"
  by (auto simp: materialize_def split: if_splits sum.splits)

lemma register_ok:
  assumes "registry_ok s"
  shows "registry_ok (snd (register plat pm s))"
proof -
  obtain res' s' where r: "register plat pm s = (res', s')"
    by (cases "register plat pm s")
  from register_cases [OF r] show ?thesis
  proof
    assume "\<exists>e. res' = Inl e \<and> s' = s"
    then show ?thesis using r assms by simp
  next
    assume "\<exists>pm'. materialize plat pm = Inr pm' \<and> res' = Inr (next_handle s) \<and>
            (\<forall>r \<in> set (index s). \<not> ranges_overlap (res pm) (res r)) \<and>
            s' = s\<lparr>index := insert_ordered (pm'\<lparr>ref := next_handle s\<rparr>) (index s),
                   pins := (pins s)(next_handle s := 1),
                   next_handle := Suc (next_handle s)\<rparr>"
    then obtain pm' where pm': "materialize plat pm = Inr pm'"
        "\<forall>r \<in> set (index s). \<not> ranges_overlap (res pm) (res r)"
        "s' = s\<lparr>index := insert_ordered (pm'\<lparr>ref := next_handle s\<rparr>) (index s),
                   pins := (pins s)(next_handle s := 1),
                   next_handle := Suc (next_handle s)\<rparr>"
      by blast
    have "\<forall>r \<in> set (index s). \<not> ranges_overlap (res (pm'\<lparr>ref := next_handle s\<rparr>)) (res r)"
      using pm'(2) materialize_res [OF pm'(1)] by simp
    then have "ordered_disjoint (insert_ordered (pm'\<lparr>ref := next_handle s\<rparr>) (index s))"
      using assms by (simp add: registry_ok_def ordered_disjoint_insert)
    then have "registry_ok s'"
      using assms pm'(3)
      by (auto simp: registry_ok_def cache_valid_def set_insert_ordered split: option.splits)
    then show ?thesis using r by simp
  qed
qed

lemma unregister_ok:
  assumes "ordered_disjoint (index s)" and "cache_valid s"
    and "\<forall>r \<in> set (index s). ref r \<noteq> h \<longrightarrow> 0 < pins s (ref r)"
  shows "registry_ok (unregister h s)"
  using assms
  by (auto simp: registry_ok_def unregister_def cache_valid_def ordered_disjoint_filter
      split: option.splits)

lemma percpu_ref_get_ok:
  "registry_ok s \<Longrightarrow> percpu_ref_get h s = Inr s' \<Longrightarrow> registry_ok s'"
  by (auto simp: percpu_ref_get_def registry_ok_def cache_valid_def
      split: if_splits option.splits)

lemma percpu_ref_put_ok:
  assumes "registry_ok s" and "percpu_ref_put h s = Inr s'"
  shows "registry_ok s'"
proof (cases "pins s h = 1")
  case True
  let ?s = "s\<lparr>pins := (pins s)(h := pins s h - 1)\<rparr>"
  have s': "s' = unregister h ?s"
    using assms(2) True by (simp add: percpu_ref_put_def Let_def)
  have "registry_ok (unregister h ?s)"
    using assms(1)
    by (intro unregister_ok) (auto simp: registry_ok_def cache_valid_def split: option.splits)
  then show ?thesis using s' by simp
next
  case False
  then show ?thesis
    using assms
    by (auto simp: percpu_ref_put_def Let_def registry_ok_def cache_valid_def
        split: if_splits option.splits)
qed

lemma step_ok: "registry_ok s \<Longrightarrow> step plat e s = Inr s' \<Longrightarrow> registry_ok s'"
proof (cases e)
  case (Acquire h)
  assume "registry_ok s" "step plat e s = Inr s'"
  then show ?thesis using Acquire percpu_ref_get_ok by simp
next
  case (Release pm)
  assume "registry_ok s" "step plat e s = Inr s'"
  then show ?thesis
    using Release percpu_ref_put_ok by (cases pm) (auto simp: put_dev_pagemap_def)
next
  case (Lookup pfn)
  assume "registry_ok s" "step plat e s = Inr s'"
  then show ?thesis using Lookup lookup_ok by auto
qed

lemma devm_memremap_pages_ok:
  "registry_ok s \<Longrightarrow> registry_ok (snd (devm_memremap_pages cfg plat device pm s))"
proof (cases "CONFIG_ZONE_DEVICE cfg")
  case True
  assume "registry_ok s"
  then show ?thesis
    using True by (simp add: devm_memremap_pages_def register_ok)
next
  case False
  assume "registry_ok s"
  then show ?thesis
    using False
    by (auto simp: devm_memremap_pages_def registry_ok_def cache_valid_def split: option.splits)
qed

lemma apply_op_ok: "registry_ok s \<Longrightarrow> apply_op cfg plat x s = Inr s' \<Longrightarrow> registry_ok s'"
  by (cases x) (auto simp: devm_memremap_pages_ok step_ok)

lemma exec_ok: "registry_ok s \<Longrightarrow> exec cfg plat xs s = Inr s' \<Longrightarrow> registry_ok s'"
proof (induction xs arbitrary: s)
  case Nil
  then show ?case by simp
next
  case (Cons x xs)
  then show ?case
    by (auto split: sum.splits dest: apply_op_ok)
qed

lemma empty_registry_ok: "registry_ok empty_registry"
  by (simp add: registry_ok_def empty_registry_def ordered_disjoint_def cache_valid_def)

lemma one_region_registered:
  "one_region =
     \<lparr>index = [pmem_registered], last_resolved = None, pins = (\<lambda>h. 0)(1 := 1),
      next_handle = 2, unregistered = [], warned = False\<rparr>"
  by (simp add: one_region_eq pmem_registered_def)

lemma two_regions_registered:
  "two_regions =
     \<lparr>index = [pmem_registered, private_region], last_resolved = None,
      pins = (\<lambda>h. 0)(1 := 1, 2 := 1), next_handle = 3, unregistered = [],
      warned = False\<rparr>"
  by (simp add: two_regions_eq pmem_registered_def)

lemma exec_two_regions:
  "exec config_all sample_platform [Register 0 pmem_region, Register 0 private_region]
     empty_registry = Inr two_regions"
  by (simp add: devm_memremap_pages_def config_all_def two_regions_def one_region_def)

lemma covers_private: "covers sample_platform private_region 1100"
  by (simp add: covers_def PFN_PHYS_def sample_platform_def private_region_def)

text \<open>
  Claim C1. In every registry that registrations, pin events and lookups can produce from
  the empty one, the live regions have pairwise-disjoint ranges, and lookup of a frame
  returns a region exactly if that region is live and its range contains the frame; it
  returns nothing exactly if no live region's range contains the frame.
\<close>

theorem lookup_exact:
  assumes "exec cfg plat ops empty_registry = Inr s"
  shows "(fst (get_dev_pagemap cfg plat s pfn hint) = Some r \<longleftrightarrow>
            r \<in> set (index s) \<and> covers plat r pfn) \<and>
         (fst (get_dev_pagemap cfg plat s pfn hint) = None \<longleftrightarrow>
            \<not> (\<exists>r \<in> set (index s). covers plat r pfn)) \<and>
         ordered_disjoint (index s)"
proof -
  have ok: "registry_ok s"
    using exec_ok [OF empty_registry_ok assms] .
  then have od: "ordered_disjoint (index s)" and cv: "cache_valid s"
    by (simp_all add: registry_ok_def)
  show ?thesis
  proof (cases "CONFIG_ZONE_DEVICE cfg")
    case True
    then show ?thesis
      using lookup_iff [OF od cv] lookup_None [OF od cv] od
      by (simp add: get_dev_pagemap_def)
  next
    case False
    have "\<And>xs t t'. exec cfg plat xs t = Inr t' \<Longrightarrow> index t = [] \<Longrightarrow> index t' = []"
    proof -
      fix xs t t'
      show "exec cfg plat xs t = Inr t' \<Longrightarrow> index t = [] \<Longrightarrow> index t' = []"
      proof (induction xs arbitrary: t)
        case Nil
        then show ?case by simp
      next
        case (Cons x xs)
        obtain u where u: "apply_op cfg plat x t = Inr u" "exec cfg plat xs u = Inr t'"
          using Cons.prems(1) by (auto split: sum.splits)
        have "index u = []"
        proof (cases x)
          case (Register device pm)
          then show ?thesis
            using u(1) Cons.prems(2) False by (auto simp: devm_memremap_pages_def)
        next
          case (Pin e)
          then show ?thesis
            using u(1) Cons.prems(2) lookup_state [of plat t]
            by (cases e)
              (auto simp: percpu_ref_get_def percpu_ref_put_def put_dev_pagemap_def
                unregister_def Let_def split: if_splits option.splits)
        qed
        then show ?case using Cons.IH u(2) by simp
      qed
    qed
    from this [OF assms] have "index s = []"
      by (simp add: empty_registry_def)
    then show ?thesis
      using False od by (simp add: get_dev_pagemap_def)
  qed
qed

theorem lookup_exact_witness:
  "exec config_all sample_platform [Register 0 pmem_region, Register 0 private_region]
     empty_registry = Inr two_regions \<and>
   private_region \<in> set (index two_regions) \<and>
   covers sample_platform private_region 1100 \<and>
   fst (get_dev_pagemap config_all sample_platform two_regions 1100 None) = Some private_region \<and>
   \<not> (\<exists>r \<in> set (index two_regions). covers sample_platform r 5000) \<and>
   fst (get_dev_pagemap config_all sample_platform two_regions 5000 None) = None"
proof -
  have m: "private_region \<in> set (index two_regions)"
    by (simp add: two_regions_registered)
  have n: "\<not> (\<exists>r \<in> set (index two_regions). covers sample_platform r 5000)"
    by (simp add: two_regions_registered covers_def PFN_PHYS_def sample_platform_def
        pmem_registered_def pmem_region_def private_region_def)
  show ?thesis
    using lookup_exact [OF exec_two_regions, of 1100 None private_region]
      lookup_exact [OF exec_two_regions, of 5000 None]
      exec_two_regions m n covers_private
    by simp
qed

section \<open>Region registry: registration\<close>

text \<open>
  Claim C4. A registration request for device-private memory without a fault handler fails
  with a configuration error and leaves the index and the pins as they were, whatever the
  other arguments and the registry are; where support is compiled in and the range overlaps
  no live region, the error is the missing fault handler.
\<close>

theorem private_needs_fault_handler:
  assumes "type pm = MEMORY_DEVICE_PRIVATE" and "page_fault pm = None"
  shows "\<exists>e. fst (devm_memremap_pages cfg plat device pm s) = Inl e \<and>
           is_configuration_error e \<and>
           index (snd (devm_memremap_pages cfg plat device pm s)) = index s \<and>
           pins (snd (devm_memremap_pages cfg plat device pm s)) = pins s \<and>
           (CONFIG_ZONE_DEVICE cfg \<and> \<not> (\<exists>r \<in> set (index s). ranges_overlap (res pm) (res r))
              \<longrightarrow> e = MissingFaultHandler)"
  using assms by (auto simp: devm_memremap_pages_def register_def)

theorem private_needs_fault_handler_witness:
  "type (private_region\<lparr>page_fault := None\<rparr>) = MEMORY_DEVICE_PRIVATE \<and>
   page_fault (private_region\<lparr>page_fault := None\<rparr>) = None \<and>
   CONFIG_ZONE_DEVICE config_all \<and>
   \<not> (\<exists>r \<in> set (index one_region).
        ranges_overlap (res (private_region\<lparr>page_fault := None\<rparr>)) (res r)) \<and>
   fst (devm_memremap_pages config_all sample_platform 0 (private_region\<lparr>page_fault := None\<rparr>)
     one_region) = Inl MissingFaultHandler"
proof -
  let ?pm = "private_region\<lparr>page_fault := None\<rparr>"
  have t: "type ?pm = MEMORY_DEVICE_PRIVATE" and f: "page_fault ?pm = None"
    by (simp_all add: private_region_def)
  have c: "CONFIG_ZONE_DEVICE config_all"
    by (simp add: config_all_def)
  have n: "\<not> (\<exists>r \<in> set (index one_region). ranges_overlap (res ?pm) (res r))"
    by (simp add: one_region_registered pmem_registered_def pmem_region_def private_region_def
        ranges_overlap_def)
  show ?thesis
    using private_needs_fault_handler [OF t f, of config_all sample_platform 0 one_region] t f c n
    by auto
qed


section \<open>Lifecycle controller: handles\<close>

lemma distinct_insert_ordered:
  "distinct (map ref (insert_ordered x rs)) \<longleftrightarrow> ref x \<notin> ref ` set rs \<and> distinct (map ref rs)"
  by (induction rs) (auto simp: set_insert_ordered)

lemma register_fresh:
  assumes "handles_fresh s"
  shows "handles_fresh (snd (register plat pm s))"
proof -
  obtain res' s' where r: "register plat pm s = (res', s')"
    by (cases "register plat pm s")
  from register_cases [OF r] show ?thesis
  proof
    assume "\<exists>e. res' = Inl e \<and> s' = s"
    then show ?thesis using r assms by simp
  next
    assume "\<exists>pm'. materialize plat pm = Inr pm' \<and> res' = Inr (next_handle s) \<and>
            (\<forall>r \<in> set (index s). \<not> ranges_overlap (res pm) (res r)) \<and>
            s' = s\<lparr>index := insert_ordered (pm'\<lparr>ref := next_handle s\<rparr>) (index s),
                   pins := (pins s)(next_handle s := 1),
                   next_handle := Suc (next_handle s)\<rparr>"
    then obtain pm' where s':
        "s' = s\<lparr>index := insert_ordered (pm'\<lparr>ref := next_handle s\<rparr>) (index s),
                   pins := (pins s)(next_handle s := 1),
                   next_handle := Suc (next_handle s)\<rparr>"
      by blast
    have "next_handle s \<notin> ref ` set (index s)"
      using assms by (auto simp: handles_fresh_def)
    then have "handles_fresh s'"
      using assms s'
      by (auto simp: handles_fresh_def distinct_insert_ordered set_insert_ordered less_Suc_eq)
    then show ?thesis using r by simp
  qed
qed

lemma unregister_fresh: "handles_fresh s \<Longrightarrow> handles_fresh (unregister h s)"
  by (auto simp: handles_fresh_def unregister_def distinct_map_filter)

lemma percpu_ref_get_fresh:
  "handles_fresh s \<Longrightarrow> percpu_ref_get h s = Inr s' \<Longrightarrow> handles_fresh s'"
  by (auto simp: percpu_ref_get_def handles_fresh_def split: if_splits)

lemma percpu_ref_put_fresh:
  assumes "handles_fresh s" and "percpu_ref_put h s = Inr s'"
  shows "handles_fresh s'"
proof -
  let ?s = "s\<lparr>pins := (pins s)(h := pins s h - 1)\<rparr>"
  have "handles_fresh ?s"
    using assms(1) by (auto simp: handles_fresh_def)
  moreover have "s' = ?s \<or> s' = unregister h ?s"
    using assms(2) by (auto simp: percpu_ref_put_def Let_def split: if_splits)
  ultimately show ?thesis
    using unregister_fresh by auto
qed

lemma step_fresh: "handles_fresh s \<Longrightarrow> step plat e s = Inr s' \<Longrightarrow> handles_fresh s'"
proof (cases e)
  case (Acquire h)
  assume "handles_fresh s" "step plat e s = Inr s'"
  then show ?thesis using Acquire percpu_ref_get_fresh by simp
next
  case (Release pm)
  assume "handles_fresh s" "step plat e s = Inr s'"
  then show ?thesis
    using Release percpu_ref_put_fresh by (cases pm) (auto simp: put_dev_pagemap_def)
next
  case (Lookup pfn)
  assume "handles_fresh s" "step plat e s = Inr s'"
  then show ?thesis
    using Lookup lookup_state [of plat s pfn] by (auto simp: handles_fresh_def)
qed

lemma apply_op_fresh:
  "handles_fresh s \<Longrightarrow> apply_op cfg plat x s = Inr s' \<Longrightarrow> handles_fresh s'"
proof (cases x)
  case (Register device pm)
  assume a: "handles_fresh s" "apply_op cfg plat x s = Inr s'"
  show ?thesis
  proof (cases "CONFIG_ZONE_DEVICE cfg")
    case True
    then show ?thesis
      using a Register register_fresh [of s plat pm] by (auto simp: devm_memremap_pages_def)
  next
    case False
    then show ?thesis
      using a Register by (auto simp: devm_memremap_pages_def handles_fresh_def)
  qed
next
  case (Pin e)
  assume "handles_fresh s" "apply_op cfg plat x s = Inr s'"
  then show ?thesis using Pin step_fresh by simp
qed

lemma exec_fresh: "handles_fresh s \<Longrightarrow> exec cfg plat xs s = Inr s' \<Longrightarrow> handles_fresh s'"
proof (induction xs arbitrary: s)
  case Nil
  then show ?case by simp
next
  case (Cons x xs)
  then show ?case
    by (auto split: sum.splits dest: apply_op_fresh)
qed

lemma empty_registry_fresh: "handles_fresh empty_registry"
  by (simp add: handles_fresh_def empty_registry_def)

text \<open>
  In a reachable registry no two live regions share a pin handle, and registration never
  touches the count of a handle in use: it issues one that has no pins.
\<close>

lemma reachable_handles:
  assumes "exec cfg plat xs empty_registry = Inr s"
  shows "distinct (map ref (index s))"
    and "\<forall>r \<in> set (index s). ref r < next_handle s"
    and "\<forall>h. next_handle s \<le> h \<longrightarrow> pins s h = 0"
  using exec_fresh [OF empty_registry_fresh assms] by (simp_all add: handles_fresh_def)

lemma net_Cons: "net h (e # es) = net h [e] + net h es"
  by (cases "(h, e # es)" rule: net.cases) simp_all

lemma percpu_ref_get_pins:
  "percpu_ref_get h' s = Inr s' \<Longrightarrow> int (pins s' h) = int (pins s h) + net h [Acquire h']"
  by (auto simp: percpu_ref_get_def split: if_splits)

lemma percpu_ref_put_pins:
  "percpu_ref_put h' s = Inr s' \<Longrightarrow>
     int (pins s' h) = int (pins s h) + (if h' = h then - 1 else 0)"
  by (auto simp: percpu_ref_put_def unregister_def Let_def split: if_splits)

lemma step_pins:
  assumes "step plat e s = Inr s'"
  shows "int (pins s' h) = int (pins s h) + net h [e]"
proof (cases e)
  case (Acquire h')
  then show ?thesis
    using assms percpu_ref_get_pins [of h' s s' h] by simp
next
  case (Release pm)
  then show ?thesis
    using assms percpu_ref_put_pins [of _ s s' h]
    by (cases pm) (auto simp: put_dev_pagemap_def)
next
  case (Lookup pfn)
  then show ?thesis
    using assms lookup_state [of plat s pfn] by auto
qed

lemma run_pins:
  "run plat es s = Inr s' \<Longrightarrow> int (pins s' h) = int (pins s h) + net h es"
proof (induction es arbitrary: s)
  case Nil
  then show ?case by simp
next
  case (Cons e es)
  obtain u where u: "step plat e s = Inr u" "run plat es u = Inr s'"
    using Cons.prems by (auto split: sum.splits)
  have "int (pins s' h) = int (pins u h) + net h es"
    using Cons.IH [OF u(2)] .
  then show ?case
    using step_pins [OF u(1), of h] net_Cons [of h e es] by simp
qed

section \<open>Lifecycle controller: teardown\<close>

lemma percpu_ref_get_inv:
  assumes "teardown_inv r n s" and "percpu_ref_get h' s = Inr s'"
  shows "teardown_inv r n s' \<and> index s' = index s"
  using assms by (auto simp: teardown_inv_def percpu_ref_get_def split: if_splits)

lemma percpu_ref_put_inv:
  assumes "teardown_inv r n s" and "percpu_ref_put h' s = Inr s'"
  shows "teardown_inv r n s' \<and> set (index s') \<subseteq> set (index s)"
proof (cases "h' = ref r")
  case True
  then show ?thesis
    using assms
    by (auto simp: teardown_inv_def percpu_ref_put_def unregister_def Let_def split: if_splits)
next
  case False
  then show ?thesis
    using assms
    by (auto simp: teardown_inv_def percpu_ref_put_def unregister_def Let_def split: if_splits)
qed

lemma step_inv:
  assumes "teardown_inv r n s" and "step plat e s = Inr s'"
  shows "teardown_inv r n s' \<and> set (index s') \<subseteq> set (index s)"
proof (cases e)
  case (Acquire h')
  then show ?thesis
    using assms percpu_ref_get_inv [of r n s h' s'] by simp
next
  case (Release pm)
  then show ?thesis
    using assms percpu_ref_put_inv [of r n s _ s']
    by (cases pm) (auto simp: put_dev_pagemap_def)
next
  case (Lookup pfn)
  then have "s' = snd (lookup plat s pfn)"
    using assms(2) by auto
  then show ?thesis
    using assms(1) lookup_state [of plat s pfn] by (simp add: teardown_inv_def)
qed

lemma run_inv:
  assumes "registry_ok s" and "teardown_inv r n s" and "run plat es s = Inr s'"
  shows "registry_ok s' \<and> teardown_inv r n s' \<and> set (index s') \<subseteq> set (index s)"
  using assms
proof (induction es arbitrary: s)
  case Nil
  then show ?case by simp
next
  case (Cons e es)
  obtain u where u: "step plat e s = Inr u" "run plat es u = Inr s'"
    using Cons.prems(3) by (auto split: sum.splits)
  have "registry_ok u"
    using step_ok [OF Cons.prems(1) u(1)] .
  moreover have "teardown_inv r n u \<and> set (index u) \<subseteq> set (index s)"
    using step_inv [OF Cons.prems(2) u(1)] .
  ultimately show ?case
    using Cons.IH [of u] u(2) by auto
qed

lemma run_torn_down:
  "run sample_platform
     [Acquire 2, Lookup 1100, Release (Some private_region), Release (Some private_region),
      Release None] two_regions = Inr torn_down"
proof -
  define s1 where "s1 = two_regions\<lparr>pins := (\<lambda>h. 0)(1 := 1, 2 := 2)\<rparr>"
  define s2 where "s2 = s1\<lparr>last_resolved := Some private_region\<rparr>"
  define s3 where "s3 = s2\<lparr>pins := (\<lambda>h. 0)(1 := 1, 2 := 1)\<rparr>"
  have r: "ref private_region = 2"
    by (simp add: private_region_def)
  have g: "percpu_ref_get 2 two_regions = Inr s1"
    by (simp add: percpu_ref_get_def two_regions_registered s1_def fun_eq_iff)
  have l: "snd (lookup sample_platform s1 1100) = s2"
    by (simp add: lookup_def two_regions_registered covers_def PFN_PHYS_def sample_platform_def
        pmem_registered_def pmem_region_def private_region_def s1_def s2_def)
  have p1: "percpu_ref_put 2 s2 = Inr s3"
    by (simp add: percpu_ref_put_def Let_def two_regions_registered s1_def s2_def s3_def
        fun_eq_iff)
  have p2: "percpu_ref_put 2 s3 = Inr torn_down"
    by (simp add: percpu_ref_put_def Let_def two_regions_registered unregister_def torn_down_def
        r pmem_registered_def pmem_region_def s1_def s2_def s3_def fun_eq_iff)
  show ?thesis
    by (simp add: g l p1 p2 put_dev_pagemap_def r)
qed

text \<open>
  Claim C2. For a live region of a reachable registry and every interleaving of acquire,
  release and lookup events that runs without a fatal error, with the net number of pins the
  interleaving takes on the region's handle counted from its events: the pin count after the
  run is the count before plus that net number; unregister has been invoked on the handle
  exactly once more if the two balance to zero, and not at all otherwise; once they balance
  every lookup of a frame in the region's range returns nothing; while pins are outstanding
  the region stays live.
\<close>

theorem teardown_exactly_once:
  assumes "exec cfg plat ops empty_registry = Inr s"
    and "r \<in> set (index s)"
    and "run plat es s = Inr s'"
  shows "int (pins s' (ref r)) = int (pins s (ref r)) + net (ref r) es \<and>
         count_list (unregistered s') (ref r) =
           count_list (unregistered s) (ref r) +
             (if int (pins s (ref r)) + net (ref r) es = 0 then 1 else 0) \<and>
         (int (pins s (ref r)) + net (ref r) es = 0 \<longrightarrow>
            (\<forall>pfn hint. covers plat r pfn \<longrightarrow> fst (get_dev_pagemap cfg plat s' pfn hint) = None)) \<and>
         (0 < int (pins s (ref r)) + net (ref r) es \<longrightarrow> r \<in> set (index s'))"
proof -
  let ?h = "ref r" and ?n = "count_list (unregistered s) (ref r)"
  have ok: "registry_ok s"
    using exec_ok [OF empty_registry_ok assms(1)] .
  then have "0 < pins s ?h"
    using assms(2) by (simp add: registry_ok_def)
  then have "teardown_inv r ?n s"
    using assms(2) by (simp add: teardown_inv_def)
  from run_inv [OF ok this assms(3)]
  have ok': "registry_ok s'" and inv: "teardown_inv r ?n s'"
    and sub: "set (index s') \<subseteq> set (index s)"
    by simp_all
  have pins: "int (pins s' ?h) = int (pins s ?h) + net ?h es"
    using assms(3) by (rule run_pins)
  have od: "ordered_disjoint (index s)"
    using ok by (simp add: registry_ok_def)
  have none: "fst (get_dev_pagemap cfg plat s' pfn hint) = None"
    if dead: "pins s' ?h = 0" and cov: "covers plat r pfn" for pfn hint
  proof (cases "CONFIG_ZONE_DEVICE cfg")
    case False
    then show ?thesis by (simp add: get_dev_pagemap_def)
  next
    case True
    have "\<not> (\<exists>x \<in> set (index s'). covers plat x pfn)"
    proof
      assume "\<exists>x \<in> set (index s'). covers plat x pfn"
      then obtain x where x: "x \<in> set (index s')" "covers plat x pfn"
        by blast
      then have "x = r"
        using ordered_disjoint_unique [OF od _ assms(2) x(2) cov] sub by blast
      then show False
        using inv dead x(1) by (auto simp: teardown_inv_def)
    qed
    then have "fst (lookup plat s' pfn) = None"
      using lookup_None [of s' plat pfn] ok' by (simp add: registry_ok_def)
    then show ?thesis
      using True by (simp add: get_dev_pagemap_def)
  qed
  have sum: "int (pins s (ref r)) + net (ref r) es = int (pins s' ?h)"
    using pins by simp
  show ?thesis
    unfolding sum using inv none by (auto simp: teardown_inv_def)
qed

theorem teardown_exactly_once_witness:
  "exec config_all sample_platform [Register 0 pmem_region, Register 0 private_region]
     empty_registry = Inr two_regions \<and>
   private_region \<in> set (index two_regions) \<and>
   run sample_platform
     [Acquire 2, Lookup 1100, Release (Some private_region), Release (Some private_region),
      Release None] two_regions = Inr torn_down \<and>
   int (pins two_regions (ref private_region)) +
     net (ref private_region)
       [Acquire 2, Lookup 1100, Release (Some private_region), Release (Some private_region),
        Release None] = 0 \<and>
   count_list (unregistered two_regions) (ref private_region) = 0 \<and>
   pins torn_down (ref private_region) = 0 \<and>
   count_list (unregistered torn_down) (ref private_region) = 1 \<and>
   covers sample_platform private_region 1100 \<and>
   fst (get_dev_pagemap config_all sample_platform torn_down 1100 None) = None"
proof -
  have m: "private_region \<in> set (index two_regions)"
    by (simp add: two_regions_registered)
  have r: "ref private_region = 2"
    by (simp add: private_region_def)
  have n: "int (pins two_regions (ref private_region)) +
     net (ref private_region)
       [Acquire 2, Lookup 1100, Release (Some private_region), Release (Some private_region),
        Release None] = 0"
    by (simp add: r two_regions_registered)
  have c: "count_list (unregistered two_regions) (ref private_region) = 0"
    by (simp add: two_regions_registered)
  show ?thesis
    using teardown_exactly_once [OF exec_two_regions m run_torn_down]
      exec_two_regions m run_torn_down n c covers_private
    by simp
qed

section \<open>Frame release: the free callback\<close>













end
